theory Spec2Isabelle
  imports Main "HOL-Library.AList" "HOL-Library.Multiset" "HOL-Library.Word"
begin

section \<open>Go values used by the key store\<close>

type_synonym byte = "8 word"

text \<open>
  A Go \<open>error\<close> value, identified by its message: \<open>errors.New(msg)\<close>. The \<open>nil\<close> error
  is \<open>None :: error option\<close>.
\<close>

datatype error = ErrorsNew string

text \<open>
  A run-time panic. Calling a method on the \<open>nil\<close> interface value is
  "invalid memory address or nil pointer dereference".
\<close>

datatype panic = NilDereference

text \<open>
  A value of an interface type (\<open>data.PrivateKey\<close>) is \<open>nil\<close> or holds a key:
  \<open>'k option\<close>, with \<open>None\<close> for \<open>nil\<close>.

  A built-in Go \<open>map\<close> is an association list with one pair per key. The order of the
  pairs in the list has no meaning to the program: no operation of Go reads it.
  \<open>m[k] = v\<close> is \<open>AList.update k v m\<close>, \<open>delete(m, k)\<close> is \<open>AList.delete k m\<close>,
  the two-result lookup \<open>v, ok := m[k]\<close> is \<open>map_of m k\<close>.
\<close>

type_synonym ('a, 'b) go_map = "('a \<times> 'b) list"

text \<open>
  \<open>for k, v := range m\<close> visits every pair of the map once, in an order that the run
  time chooses anew for each loop. \<open>range_visits m visit\<close>: the loop over \<open>m\<close> may
  visit the pairs in the order \<open>visit\<close>. Each step picks any pair that is left.
\<close>

inductive pick :: "'a list \<Rightarrow> 'a \<Rightarrow> 'a list \<Rightarrow> bool" where
  pick_head: "pick (x # xs) x xs"
| pick_tail: "pick xs y ys \<Longrightarrow> pick (x # xs) y (x # ys)"

inductive range_visits :: "'a list \<Rightarrow> 'a list \<Rightarrow> bool" where
  range_done: "range_visits [] []"
| range_next: "pick m p rest \<Longrightarrow> range_visits rest visit \<Longrightarrow> range_visits m (p # visit)"

code_pred pick .

code_pred range_visits .

subsection \<open>\<open>edCryptoKey\<close> and \<open>Ed25519\<close>\<close>

record 'k edCryptoKey =
  role :: string
  privKey :: "'k option"

record 'k Ed25519 =
  keys :: "(string, 'k edCryptoKey) go_map"

text \<open>The struct \<open>data.Signature\<close>, with the three fields that \<open>Sign\<close> fills in.\<close>

record Signature =
  KeyID :: string
  Method :: string
  Signature :: "byte list"

text \<open>
  The one-result lookup \<open>e.keys[keyID]\<close>: the stored entry, or the zero value of
  \<open>edCryptoKey\<close> (empty role, \<open>nil\<close> key) when the identifier is absent.
\<close>

definition zero_edCryptoKey :: "'k edCryptoKey" where
  "zero_edCryptoKey = \<lparr>role = [], privKey = None\<rparr>"

definition index :: "(string, 'k edCryptoKey) go_map \<Rightarrow> string \<Rightarrow> 'k edCryptoKey" where
  "index m keyID = (case map_of m keyID of None \<Rightarrow> zero_edCryptoKey | Some v \<Rightarrow> v)"

subsection \<open>What the store imports\<close>

text \<open>
  Package \<open>tuf/data\<close> and the \<open>ed25519\<close> library are not part of the file under
  study; the store is verified for any implementation of them. \<open>'k\<close> is the type of
  (non-nil) private keys, \<open>'p\<close> the type of public keys.
  \<^item> \<open>ED25519Key\<close>, \<open>EDDSASignature\<close>: the constants \<open>data.ED25519Key\<close> and
    \<open>data.EDDSASignature\<close>;
  \<^item> \<open>PrivateKeySize\<close>: \<open>ed25519.PrivateKeySize\<close>;
  \<^item> \<open>ID\<close>, \<open>Private\<close>: the methods \<open>k.ID()\<close> and \<open>k.Private()\<close> of a key;
  \<^item> \<open>public_of\<close>: \<open>data.PublicKeyFromPrivate\<close> on a key, and \<open>public_of_nil\<close>:
    what the same call does on the \<open>nil\<close> interface value (it returns some public key
    or panics; this file does not decide which);
  \<^item> \<open>NewED25519PublicKey\<close>, \<open>NewED25519PrivateKey\<close>: the two constructors; what they
    return without error is a key, not \<open>nil\<close>;
  \<^item> \<open>ed25519_Sign\<close>: \<open>ed25519.Sign\<close> on the private key array and the message.
\<close>

record ('k, 'p) externals =
  ED25519Key :: string
  EDDSASignature :: string
  PrivateKeySize :: nat
  ID :: "'k \<Rightarrow> string"
  Private :: "'k \<Rightarrow> byte list"
  public_of :: "'k \<Rightarrow> 'p"
  public_of_nil :: "panic + 'p"
  NewED25519PublicKey :: "byte list \<Rightarrow> 'p"
  NewED25519PrivateKey :: "'p \<Rightarrow> byte list \<Rightarrow> error + 'k"
  ed25519_Sign :: "byte list \<Rightarrow> byte list \<Rightarrow> byte list"

definition PublicKeyFromPrivate :: "('k, 'p) externals \<Rightarrow> 'k option \<Rightarrow> panic + 'p" where
  "PublicKeyFromPrivate D pk =
     (case pk of None \<Rightarrow> public_of_nil D | Some k \<Rightarrow> Inr (public_of D k))"

text \<open>
  \<open>priv := [n]byte{}; copy(priv[:], src)\<close>: an array of \<open>n\<close> zero bytes whose first
  \<open>min n (len src)\<close> bytes are overwritten by those of \<open>src\<close>.
\<close>

definition copy_array :: "nat \<Rightarrow> byte list \<Rightarrow> byte list" where
  "copy_array n src = take n src @ replicate (n - length src) 0"

section \<open>The key store\<close>

definition NewEd25519 :: "'k Ed25519" where
  "NewEd25519 = \<lparr>keys = []\<rparr>"

text \<open>
  \<open>addKey\<close> evaluates \<open>k.ID()\<close> before it assigns: on the \<open>nil\<close> key it panics and the
  map is not touched.
\<close>

definition addKey ::
  "('k, 'p) externals \<Rightarrow> 'k Ed25519 \<Rightarrow> string \<Rightarrow> 'k option \<Rightarrow> panic + 'k Ed25519" where
  "addKey D e r k =
     (case k of
        None \<Rightarrow> Inl NilDereference
      | Some key \<Rightarrow>
          Inr (e\<lparr>keys := AList.update (ID D key) \<lparr>role = r, privKey = k\<rparr> (keys e)\<rparr>))"

definition RemoveKey :: "'k Ed25519 \<Rightarrow> string \<Rightarrow> error option \<times> 'k Ed25519" where
  "RemoveKey e keyID = (None, e\<lparr>keys := AList.delete keyID (keys e)\<rparr>)"

text \<open>
  \<open>ListKeys\<close> and \<open>ListAllKeys\<close> loop over \<open>range e.keys\<close>. The body of each loop is
  a function of the pairs in the order of the visit; since that order is open, the
  operation is a relation: \<open>ListKeys e r keyIDs\<close> says that the call \<open>e.ListKeys(r)\<close>
  may return the slice \<open>keyIDs\<close>. The body of \<open>ListKeys\<close> does not read its argument.
\<close>

fun ListKeys_loop :: "(string, 'v) go_map \<Rightarrow> string list \<Rightarrow> string list" where
  "ListKeys_loop [] keyIDs = keyIDs"
| "ListKeys_loop ((kid, _) # rest) keyIDs = ListKeys_loop rest (keyIDs @ [kid])"

inductive ListKeys :: "'k Ed25519 \<Rightarrow> string \<Rightarrow> string list \<Rightarrow> bool" where
  ListKeys_returns:
    "range_visits (keys e) visit \<Longrightarrow> keyIDs = ListKeys_loop visit [] \<Longrightarrow> ListKeys e r keyIDs"

fun ListAllKeys_loop ::
  "(string, 'k edCryptoKey) go_map \<Rightarrow> (string, string) go_map \<Rightarrow> (string, string) go_map" where
  "ListAllKeys_loop [] ks = ks"
| "ListAllKeys_loop ((kid, edKey) # rest) ks =
     ListAllKeys_loop rest (AList.update kid (role edKey) ks)"

inductive ListAllKeys :: "'k Ed25519 \<Rightarrow> (string, string) go_map \<Rightarrow> bool" where
  ListAllKeys_returns:
    "range_visits (keys e) visit \<Longrightarrow> ks = ListAllKeys_loop visit [] \<Longrightarrow> ListAllKeys e ks"

code_pred ListKeys .

code_pred ListAllKeys .

text \<open>
  The loop of \<open>Sign\<close>. \<open>e.keys[keyID].privKey.Private()\<close> is a method call on the key
  of the looked-up entry; there is no test that the identifier is present.
\<close>

fun Sign_loop ::
  "('k, 'p) externals \<Rightarrow> 'k Ed25519 \<Rightarrow> byte list \<Rightarrow> string list \<Rightarrow> Signature list
     \<Rightarrow> panic + Signature list" where
  "Sign_loop D e toSign [] signatures = Inr signatures"
| "Sign_loop D e toSign (keyID # rest) signatures =
     (case privKey (index (keys e) keyID) of
        None \<Rightarrow> Inl NilDereference
      | Some key \<Rightarrow>
          (let priv = copy_array (PrivateKeySize D) (Private D key);
               sig = ed25519_Sign D priv toSign
           in Sign_loop D e toSign rest
                (signatures @ [\<lparr>KeyID = keyID, Method = EDDSASignature D, Signature = sig\<rparr>])))"

definition Sign ::
  "('k, 'p) externals \<Rightarrow> 'k Ed25519 \<Rightarrow> string list \<Rightarrow> byte list
     \<Rightarrow> panic + (Signature list \<times> error option)" where
  "Sign D e keyIDs toSign =
     (case Sign_loop D e toSign keyIDs [] of
        Inl p \<Rightarrow> Inl p
      | Inr signatures \<Rightarrow> Inr (signatures, None))"

text \<open>
  \<open>Create\<close>. The argument \<open>gen\<close> is what \<open>ed25519.GenerateKey(rand.Reader)\<close> returns in
  this call: an error, or the public and the private key bytes. The result is the pair
  \<open>(data.PublicKey, error)\<close> as a sum, with the store after the call.
\<close>

definition Create ::
  "('k, 'p) externals \<Rightarrow> 'k Ed25519 \<Rightarrow> string \<Rightarrow> string \<Rightarrow> error + (byte list \<times> byte list)
     \<Rightarrow> panic + ((error + 'p) \<times> 'k Ed25519)" where
  "Create D e r algorithm gen =
     (if algorithm \<noteq> ED25519Key D
      then Inr (Inl (ErrorsNew ''only ED25519 supported by this cryptoservice''), e)
      else
        (case gen of
           Inl err \<Rightarrow> Inr (Inl err, e)
         | Inr (pub, priv) \<Rightarrow>
             (let public = NewED25519PublicKey D pub in
              (case NewED25519PrivateKey D public priv of
                 Inl err \<Rightarrow> Inr (Inl err, e)
               | Inr private \<Rightarrow>
                   (case addKey D e r (Some private) of
                      Inl p \<Rightarrow> Inl p
                    | Inr e' \<Rightarrow> Inr (Inr public, e'))))))"

fun PublicKeys_loop ::
  "('k, 'p) externals \<Rightarrow> 'k Ed25519 \<Rightarrow> string list \<Rightarrow> (string, 'p) go_map
     \<Rightarrow> panic + (string, 'p) go_map" where
  "PublicKeys_loop D e [] k = Inr k"
| "PublicKeys_loop D e (keyID # rest) k =
     (case map_of (keys e) keyID of
        None \<Rightarrow> PublicKeys_loop D e rest k
      | Some edKey \<Rightarrow>
          (case PublicKeyFromPrivate D (privKey edKey) of
             Inl p \<Rightarrow> Inl p
           | Inr pk \<Rightarrow> PublicKeys_loop D e rest (AList.update keyID pk k)))"

definition PublicKeys ::
  "('k, 'p) externals \<Rightarrow> 'k Ed25519 \<Rightarrow> string list
     \<Rightarrow> panic + ((string, 'p) go_map \<times> error option)" where
  "PublicKeys D e keyIDs =
     (case PublicKeys_loop D e keyIDs [] of
        Inl p \<Rightarrow> Inl p
      | Inr k \<Rightarrow> Inr (k, None))"

definition GetKey :: "('k, 'p) externals \<Rightarrow> 'k Ed25519 \<Rightarrow> string \<Rightarrow> panic + 'p" where
  "GetKey D e keyID = PublicKeyFromPrivate D (privKey (index (keys e) keyID))"

definition GetPrivateKey :: "'k Ed25519 \<Rightarrow> string \<Rightarrow> 'k option \<times> string \<times> error option" where
  "GetPrivateKey e keyID = (privKey (index (keys e) keyID), [], None)"

section \<open>Vocabulary of the specification\<close>

text \<open>
  The error that \<open>Create\<close> returns for an algorithm it does not implement; the
  specification calls its kind \<open>UnsupportedAlgorithm\<close>.
\<close>

definition UnsupportedAlgorithm :: error where
  "UnsupportedAlgorithm = ErrorsNew ''only ED25519 supported by this cryptoservice''"

text \<open>
  The registry invariant: every entry holds a key, it is stored under the identifier
  of that key, and no identifier occurs twice.
\<close>

definition self_consistent :: "('k, 'p) externals \<Rightarrow> string \<times> 'k edCryptoKey \<Rightarrow> bool" where
  "self_consistent D p =
     (case privKey (snd p) of None \<Rightarrow> False | Some key \<Rightarrow> ID D key = fst p)"

definition registry_inv :: "('k, 'p) externals \<Rightarrow> 'k Ed25519 \<Rightarrow> bool" where
  "registry_inv D e \<longleftrightarrow> list_all (self_consistent D) (keys e) \<and> distinct (map fst (keys e))"

text \<open>
  The public key of the entry stored under an identifier, if there is one: what
  \<open>data.PublicKeyFromPrivate\<close> yields on the entry's key.
\<close>

definition stored_public_key :: "('k, 'p) externals \<Rightarrow> 'k Ed25519 \<Rightarrow> string \<Rightarrow> 'p option" where
  "stored_public_key D e keyID =
     (case map_of (keys e) keyID of
        None \<Rightarrow> None
      | Some edKey \<Rightarrow>
          (case privKey edKey of None \<Rightarrow> None | Some key \<Rightarrow> Some (public_of D key)))"

text \<open>
  A client's call of one operation of the store, and the store after the call. The
  read accessors return no store: they leave it as it is. A call that panics leaves
  the store as it was before the call.
\<close>

datatype 'k call =
    CallCreate string string "error + (byte list \<times> byte list)"
  | CallAddKey string "'k option"
  | CallRemoveKey string
  | CallListKeys string
  | CallListAllKeys
  | CallSign "string list" "byte list"
  | CallPublicKeys "string list"
  | CallGetKey string
  | CallGetPrivateKey string

fun after_call :: "('k, 'p) externals \<Rightarrow> 'k Ed25519 \<Rightarrow> 'k call \<Rightarrow> 'k Ed25519" where
  "after_call D e (CallCreate r algorithm gen) =
     (case Create D e r algorithm gen of Inl p \<Rightarrow> e | Inr (res, e') \<Rightarrow> e')"
| "after_call D e (CallAddKey r k) =
     (case addKey D e r k of Inl p \<Rightarrow> e | Inr e' \<Rightarrow> e')"
| "after_call D e (CallRemoveKey keyID) = snd (RemoveKey e keyID)"
| "after_call D e (CallListKeys r) = e"
| "after_call D e CallListAllKeys = e"
| "after_call D e (CallSign keyIDs toSign) = e"
| "after_call D e (CallPublicKeys keyIDs) = e"
| "after_call D e (CallGetKey keyID) = e"
| "after_call D e (CallGetPrivateKey keyID) = e"

fun after_calls :: "('k, 'p) externals \<Rightarrow> 'k Ed25519 \<Rightarrow> 'k call list \<Rightarrow> 'k Ed25519" where
  "after_calls D e [] = e"
| "after_calls D e (c # cs) = after_calls D (after_call D e c) cs"

subsection \<open>A small implementation of the imported operations\<close>

text \<open>
  Used to run the store on concrete inputs. A private key is the pair of its public
  and private bytes, its identifier is the public bytes in hexadecimal, and the
  signature is a one-byte checksum: a stand-in for the cryptography, which the
  properties below do not depend on.
\<close>

definition hex_digit :: "nat \<Rightarrow> char" where
  "hex_digit n = ''0123456789abcdef'' ! n"

definition hex :: "byte \<Rightarrow> string" where
  "hex b = [hex_digit (unat b div 16), hex_digit (unat b mod 16)]"

definition demo :: "(byte list \<times> byte list, byte list) externals" where
  "demo = \<lparr>
     ED25519Key = ''ed25519'',
     EDDSASignature = ''eddsa'',
     PrivateKeySize = 64,
     ID = (\<lambda>key. concat (map hex (fst key))),
     Private = snd,
     public_of = fst,
     public_of_nil = Inl NilDereference,
     NewED25519PublicKey = (\<lambda>pub. pub),
     NewED25519PrivateKey = (\<lambda>public priv. Inr (public, priv)),
     ed25519_Sign = (\<lambda>priv msg. [sum_list priv + sum_list msg])\<rparr>"

text \<open>A store with a \<open>root\<close> key and a \<open>targets\<close> key.\<close>

definition demo_store :: "(byte list \<times> byte list) Ed25519" where
  "demo_store =
     \<lparr>keys = [(''01'', \<lparr>role = ''root'', privKey = Some ([1], [5, 6])\<rparr>),
              (''02'', \<lparr>role = ''targets'', privKey = Some ([2], [7])\<rparr>)]\<rparr>"

section \<open>Lemmas on the registry\<close>

lemma ListKeys_loop_eq: "ListKeys_loop m acc = acc @ map fst m"
  by (induction m acc rule: ListKeys_loop.induct) simp_all

subsection \<open>The orders of \<open>range\<close> are the permutations of the pairs\<close>

lemma pick_mset: "pick m p rest \<Longrightarrow> mset m = add_mset p (mset rest)"
  by (induction rule: pick.induct) simp_all

lemma pick_exists: "p \<in> set m \<Longrightarrow> \<exists>rest. pick m p rest"
proof (induction m)
  case Nil
  then show ?case by simp
next
  case (Cons x xs)
  show ?case
  proof (cases "p = x")
    case True
    have "pick (x # xs) x xs" by (rule pick_head)
    with True show ?thesis by (intro exI [of _ xs]) simp
  next
    case False
    with Cons.prems have "p \<in> set xs" by simp
    from Cons.IH [OF this] obtain rest where "pick xs p rest" ..
    then have "pick (x # xs) p (x # rest)" by (rule pick_tail)
    then show ?thesis ..
  qed
qed

lemma range_visits_mset: "range_visits m visit \<Longrightarrow> mset visit = mset m"
proof (induction rule: range_visits.induct)
  case range_done
  show ?case by simp
next
  case (range_next m p rest visit)
  from range_next.hyps(1) have "mset m = add_mset p (mset rest)" by (rule pick_mset)
  with range_next.IH show ?case by simp
qed

lemma mset_range_visits: "mset visit = mset m \<Longrightarrow> range_visits m visit"
proof (induction visit arbitrary: m)
  case Nil
  then show ?case by (simp add: range_done)
next
  case (Cons p visit)
  have "p \<in> set (p # visit)" by simp
  also have "set (p # visit) = set m" using Cons.prems by (rule mset_eq_setD)
  finally have "p \<in> set m" .
  from pick_exists [OF this] obtain rest where rest: "pick m p rest" ..
  have "add_mset p (mset visit) = mset m" using Cons.prems by simp
  also have "mset m = add_mset p (mset rest)" using rest by (rule pick_mset)
  finally have "mset visit = mset rest" by simp
  then have "range_visits rest visit" by (rule Cons.IH)
  with rest show ?case by (rule range_next)
qed

lemma range_visits_iff: "range_visits m visit \<longleftrightarrow> mset visit = mset m"
  using range_visits_mset mset_range_visits by blast

lemma range_visits_self: "range_visits m m"
  by (simp add: range_visits_iff)

lemma ListKeys_iff_visit:
  "ListKeys e r keyIDs \<longleftrightarrow> (\<exists>visit. mset visit = mset (keys e) \<and> keyIDs = map fst visit)"
  by (simp add: ListKeys.simps ListKeys_loop_eq range_visits_iff)

lemma index_present: "map_of m keyID = Some ent \<Longrightarrow> index m keyID = ent"
  by (simp add: index_def)

lemma index_absent: "map_of m keyID = None \<Longrightarrow> index m keyID = zero_edCryptoKey"
  by (simp add: index_def)

lemma stored_key:
  assumes "list_all (self_consistent D) m" and "map_of m keyID = Some ent"
  shows "\<exists>key. privKey ent = Some key \<and> ID D key = keyID"
proof -
  from assms(2) have "(keyID, ent) \<in> set m" by (rule map_of_SomeD)
  with assms(1) have "self_consistent D (keyID, ent)" by (simp add: list_all_iff)
  then show ?thesis by (simp add: self_consistent_def split: option.splits)
qed

lemma list_all_update:
  "list_all P al \<Longrightarrow> P (k, v) \<Longrightarrow> list_all P (AList.update k v al)"
  by (induction al) auto

lemma list_all_delete: "list_all P al \<Longrightarrow> list_all P (AList.delete k al)"
  by (induction al) auto

text \<open>
  The slices that \<open>ListKeys\<close> may return are the arrangements of the stored
  identifiers, all of them and no other slice.
\<close>

lemma perm_keys_visit:
  "mset ks = mset (map fst m) \<Longrightarrow> \<exists>visit. mset visit = mset m \<and> ks = map fst visit"
proof (induction ks arbitrary: m)
  case Nil
  then show ?case by simp
next
  case (Cons k ks)
  have "k \<in> set (k # ks)" by simp
  also have "set (k # ks) = set (map fst m)" using Cons.prems by (rule mset_eq_setD)
  finally obtain p where p: "p \<in> set m" "fst p = k" by auto
  from pick_exists [OF p(1)] obtain rest where rest: "pick m p rest" ..
  then have m: "mset m = add_mset p (mset rest)" by (rule pick_mset)
  have "add_mset k (mset ks) = mset (map fst m)" using Cons.prems by simp
  also have "\<dots> = add_mset k (mset (map fst rest))"
    using m p(2) by (metis image_mset_add_mset mset_map)
  finally have "mset ks = mset (map fst rest)" by simp
  from Cons.IH [OF this] obtain visit where visit: "mset visit = mset rest" "ks = map fst visit"
    by blast
  have "mset (p # visit) = mset m \<and> k # ks = map fst (p # visit)"
    using visit m p(2) by simp
  then show ?case by (rule exI [where x = "p # visit"])
qed

lemma ListKeys_iff: "ListKeys e r keyIDs \<longleftrightarrow> mset keyIDs = mset (map fst (keys e))"
proof
  assume "ListKeys e r keyIDs"
  then show "mset keyIDs = mset (map fst (keys e))"
    unfolding ListKeys_iff_visit by (metis mset_map)
next
  assume "mset keyIDs = mset (map fst (keys e))"
  from perm_keys_visit [OF this] show "ListKeys e r keyIDs"
    unfolding ListKeys_iff_visit .
qed

subsection \<open>Every operation keeps the invariant\<close>

lemma registry_inv_empty: "registry_inv D NewEd25519"
  by (simp add: registry_inv_def NewEd25519_def)

lemma registry_inv_addKey:
  assumes "registry_inv D e" and "addKey D e r k = Inr e'"
  shows "registry_inv D e'"
proof (cases k)
  case None
  with assms(2) show ?thesis by (simp add: addKey_def)
next
  case (Some key)
  with assms(2)
  have e': "e' = e\<lparr>keys := AList.update (ID D key) \<lparr>role = r, privKey = Some key\<rparr> (keys e)\<rparr>"
    by (simp add: addKey_def)
  have "self_consistent D (ID D key, \<lparr>role = r, privKey = Some key\<rparr>)"
    by (simp add: self_consistent_def)
  with assms(1) show ?thesis
    unfolding registry_inv_def e' by (simp add: list_all_update distinct_update)
qed

lemma registry_inv_RemoveKey:
  "registry_inv D e \<Longrightarrow> registry_inv D (snd (RemoveKey e keyID))"
  by (simp add: registry_inv_def RemoveKey_def list_all_delete distinct_delete)

lemma Create_cases:
  "Create D e r algorithm gen = Inr (res, e') \<Longrightarrow>
     e' = e \<or> (\<exists>key. addKey D e r (Some key) = Inr e')"
  by (auto simp: Create_def Let_def split: if_splits sum.splits prod.splits)

lemma registry_inv_Create:
  assumes "registry_inv D e" and "Create D e r algorithm gen = Inr (res, e')"
  shows "registry_inv D e'"
  using Create_cases [OF assms(2)] assms(1) registry_inv_addKey by blast

lemma registry_inv_after_call: "registry_inv D e \<Longrightarrow> registry_inv D (after_call D e c)"
proof (cases c)
  case (CallCreate r algorithm gen)
  assume "registry_inv D e"
  then show ?thesis using CallCreate registry_inv_Create [of D e r algorithm gen]
    by (auto split: sum.splits)
next
  case (CallAddKey r k)
  assume "registry_inv D e"
  then show ?thesis using CallAddKey registry_inv_addKey [of D e r k]
    by (auto split: sum.splits)
next
  case (CallRemoveKey keyID)
  assume "registry_inv D e"
  then show ?thesis using CallRemoveKey by (simp add: registry_inv_RemoveKey)
qed simp_all

lemma registry_inv_after_calls:
  "registry_inv D e \<Longrightarrow> registry_inv D (after_calls D e cs)"
  by (induction cs arbitrary: e) (simp_all add: registry_inv_after_call)

subsection \<open>The loops of \<open>Sign\<close> and \<open>PublicKeys\<close>\<close>

lemma Sign_loop_present:
  assumes "list_all (self_consistent D) (keys e)" and "set ks \<subseteq> dom (map_of (keys e))"
  shows "\<exists>sigs. Sign_loop D e toSign ks acc = Inr (acc @ sigs) \<and> map KeyID sigs = ks \<and>
           (\<forall>s\<in>set sigs. Method s = EDDSASignature D)"
  using assms(2)
proof (induction ks arbitrary: acc)
  case Nil
  then show ?case by simp
next
  case (Cons keyID rest)
  from Cons.prems obtain ent where ent: "map_of (keys e) keyID = Some ent" by auto
  with assms(1) obtain key where key: "privKey ent = Some key"
    using stored_key by blast
  let ?s = "\<lparr>KeyID = keyID, Method = EDDSASignature D,
              Signature = ed25519_Sign D (copy_array (PrivateKeySize D) (Private D key)) toSign\<rparr>"
  from Cons.prems have "set rest \<subseteq> dom (map_of (keys e))" by simp
  from Cons.IH [OF this, of "acc @ [?s]"]
  obtain sigs where sigs: "Sign_loop D e toSign rest (acc @ [?s]) = Inr ((acc @ [?s]) @ sigs)"
      "map KeyID sigs = rest" "\<forall>s\<in>set sigs. Method s = EDDSASignature D"
    by blast
  have "Sign_loop D e toSign (keyID # rest) acc = Inr (acc @ (?s # sigs)) \<and>
        map KeyID (?s # sigs) = keyID # rest \<and>
        (\<forall>s\<in>set (?s # sigs). Method s = EDDSASignature D)"
    using ent key sigs by (simp add: index_present Let_def)
  then show ?case by (rule exI [where x = "?s # sigs"])
qed

lemma Sign_loop_absent:
  assumes "list_all (self_consistent D) (keys e)"
    and "\<not> set ks \<subseteq> dom (map_of (keys e))"
  shows "Sign_loop D e toSign ks acc = Inl NilDereference"
  using assms(2)
proof (induction ks arbitrary: acc)
  case Nil
  then show ?case by simp
next
  case (Cons keyID rest)
  show ?case
  proof (cases "map_of (keys e) keyID")
    case None
    then show ?thesis by (simp add: index_absent zero_edCryptoKey_def)
  next
    case (Some ent)
    with assms(1) obtain key where key: "privKey ent = Some key" using stored_key by blast
    from Some Cons.prems have "\<not> set rest \<subseteq> dom (map_of (keys e))" by auto
    from Cons.IH [OF this] show ?thesis using Some key by (simp add: index_present Let_def)
  qed
qed

text \<open>
  With any requested identifier absent, wherever it stands in the request, \<open>Sign\<close>
  panics: it returns neither signatures nor an error.
\<close>

lemma Sign_absent:
  assumes "registry_inv D e" and "keyID \<in> set keyIDs" and "map_of (keys e) keyID = None"
  shows "Sign D e keyIDs toSign = Inl NilDereference"
proof -
  from assms(1) have inv: "list_all (self_consistent D) (keys e)" by (simp add: registry_inv_def)
  from assms(2,3) have "\<not> set keyIDs \<subseteq> dom (map_of (keys e))" by auto
  from Sign_loop_absent [OF inv this] show ?thesis by (simp add: Sign_def)
qed

lemma Sign_first_absent:
  "map_of (keys e) keyID = None \<Longrightarrow> Sign D e (keyID # rest) toSign = Inl NilDereference"
  by (simp add: Sign_def index_def zero_edCryptoKey_def)

lemma GetKey_present:
  "registry_inv D e \<Longrightarrow> map_of (keys e) keyID = Some ent \<Longrightarrow>
     \<exists>key. privKey ent = Some key \<and> GetKey D e keyID = Inr (public_of D key)"
  using stored_key [of D "keys e" keyID ent]
  by (auto simp: registry_inv_def GetKey_def index_present PublicKeyFromPrivate_def)

lemma PublicKeys_loop_result:
  assumes "list_all (self_consistent D) (keys e)"
  shows "\<exists>k'. PublicKeys_loop D e ks k = Inr k' \<and>
           map_of k' = map_of k ++ (stored_public_key D e |` set ks) \<and>
           (distinct (map fst k) \<longrightarrow> distinct (map fst k'))"
proof (induction ks arbitrary: k)
  case Nil
  then show ?case by simp
next
  case (Cons keyID rest)
  show ?case
  proof (cases "map_of (keys e) keyID")
    case None
    then have "stored_public_key D e keyID = None" by (simp add: stored_public_key_def)
    then have "stored_public_key D e |` set (keyID # rest) = stored_public_key D e |` set rest"
      by (auto simp: restrict_map_def fun_eq_iff)
    with None Cons.IH [of k] show ?thesis by simp
  next
    case (Some ent)
    with assms obtain key where key: "privKey ent = Some key" using stored_key by blast
    then have sp: "stored_public_key D e keyID = Some (public_of D key)"
      using Some by (simp add: stored_public_key_def)
    let ?k1 = "AList.update keyID (public_of D key) k"
    from Cons.IH [of ?k1]
    obtain k' where k': "PublicKeys_loop D e rest ?k1 = Inr k'"
        "map_of k' = map_of ?k1 ++ (stored_public_key D e |` set rest)"
        "distinct (map fst ?k1) \<longrightarrow> distinct (map fst k')"
      by blast
    have 1: "PublicKeys_loop D e (keyID # rest) k = Inr k'"
      using Some key k'(1) by (simp add: PublicKeyFromPrivate_def)
    have 2: "map_of k' = map_of k ++ (stored_public_key D e |` set (keyID # rest))"
      unfolding k'(2) using sp
      by (auto simp: update_conv' fun_eq_iff map_add_def restrict_map_def split: option.splits)
    have 3: "distinct (map fst k) \<longrightarrow> distinct (map fst k')"
      using k'(3) by (simp add: distinct_update)
    from 1 2 3 show ?thesis by blast
  qed
qed

lemma dom_stored_public_key:
  assumes "list_all (self_consistent D) (keys e)"
  shows "dom (stored_public_key D e) = dom (map_of (keys e))"
proof -
  have "(stored_public_key D e keyID = None) = (map_of (keys e) keyID = None)" for keyID
    using stored_key [OF assms, of keyID]
    by (auto simp: stored_public_key_def split: option.splits)
  then show ?thesis by (auto simp: dom_def)
qed

subsection \<open>Runs on the small implementation\<close>

lemma Sign_demo_store:
  "Sign demo demo_store [''02'', ''01''] [1, 2, 3] =
     Inr ([\<lparr>KeyID = ''02'', Method = ''eddsa'', Signature = [13]\<rparr>,
           \<lparr>KeyID = ''01'', Method = ''eddsa'', Signature = [17]\<rparr>], None)"
  by (simp add: Sign_def demo_store_def demo_def index_def copy_array_def sum_list_replicate)

lemma PublicKeys_demo_store:
  "PublicKeys demo demo_store [''01'', ''09''] = Inr ([(''01'', [1])], None)"
  by (simp add: PublicKeys_def demo_store_def demo_def PublicKeyFromPrivate_def)

lemma Create_demo:
  "Create demo NewEd25519 ''root'' ''ed25519'' (Inr ([1, 255], [3, 4])) =
     Inr (Inr [1, 255],
          \<lparr>keys = [(''01ff'', \<lparr>role = ''root'', privKey = Some ([1, 255], [3, 4])\<rparr>)]\<rparr>)"
  by (simp add: Create_def addKey_def NewEd25519_def demo_def hex_def hex_digit_def)

section \<open>The claims\<close>

text \<open>
  C4. \<open>Create\<close> with any role and any algorithm other than \<open>data.ED25519Key\<close> returns
  the unsupported-algorithm error, and the store after the call is the store before it.
\<close>

theorem Create_rejects_other_algorithms:
  "algorithm \<noteq> ED25519Key D \<Longrightarrow>
     Create D e r algorithm gen = Inr (Inl UnsupportedAlgorithm, e)"
  by (simp add: Create_def UnsupportedAlgorithm_def)

theorem Create_rejects_other_algorithms_witness:
  "''unknown-algorithm'' \<noteq> ED25519Key demo \<and>
   Create demo NewEd25519 ''root'' ''unknown-algorithm'' (Inr ([1], [5, 6]))
     = Inr (Inl UnsupportedAlgorithm, NewEd25519)"
proof -
  have h: "''unknown-algorithm'' \<noteq> ED25519Key demo" by (simp add: demo_def)
  show ?thesis using h Create_rejects_other_algorithms [OF h] by simp
qed

text \<open>
  C5. The invariant of the registry (each entry is stored under the identifier that
  its own key yields, and no identifier occurs twice) holds in the new store and is
  kept by every sequence of calls of \<open>Create\<close>, \<open>addKey\<close>, \<open>RemoveKey\<close> and the read
  accessors.
\<close>

theorem registry_invariant_maintained:
  "registry_inv D NewEd25519 \<and>
   (registry_inv D e \<longrightarrow> registry_inv D (after_calls D e cs))"
  using registry_inv_empty registry_inv_after_calls by blast

theorem registry_invariant_maintained_witness:
  "registry_inv demo demo_store \<and>
   registry_inv demo
     (after_calls demo demo_store
        [CallCreate ''targets'' ''ed25519'' (Inr ([3], [7, 8])),
         CallAddKey ''snapshot'' (Some ([1], [9])),
         CallSign [''01''] [1, 2, 3],
         CallRemoveKey ''02''])"
    (is "_ \<and> registry_inv demo (after_calls demo demo_store ?cs)")
proof -
  have h: "registry_inv demo demo_store"
    by (simp add: registry_inv_def self_consistent_def demo_store_def demo_def hex_def
        hex_digit_def)
  have "registry_inv demo demo_store \<longrightarrow> registry_inv demo (after_calls demo demo_store ?cs)"
    using registry_invariant_maintained [of demo demo_store ?cs] by (rule conjunct2)
  then have "registry_inv demo (after_calls demo demo_store ?cs)" using h by (rule mp)
  with h show ?thesis by (rule conjI)
qed

text \<open>
  C6. For every role argument \<open>ListKeys\<close> returns; every slice it may return holds the
  identifiers of all entries of the registry and nothing else, one for each entry; and
  a slice that it may return for one role argument is one that it may return for any
  other. (The order of the slice is that of the loop over the map, which is open.)
\<close>

theorem ListKeys_ignores_role:
  "(\<exists>keyIDs. ListKeys e r keyIDs) \<and>
   (ListKeys e r keyIDs \<longrightarrow>
      set keyIDs = dom (map_of (keys e)) \<and>
      mset keyIDs = mset (map fst (keys e)) \<and>
      ListKeys e r' keyIDs)"
proof (intro conjI impI)
  have "ListKeys e r (map fst (keys e))"
    unfolding ListKeys_iff_visit by blast
  then show "\<exists>keyIDs. ListKeys e r keyIDs" ..
next
  assume "ListKeys e r keyIDs"
  then obtain visit where visit: "mset visit = mset (keys e)" "keyIDs = map fst visit"
    unfolding ListKeys_iff_visit by blast
  from visit(1) have "set visit = set (keys e)" by (rule mset_eq_setD)
  with visit(2) show "set keyIDs = dom (map_of (keys e))"
    by (simp add: dom_map_of_conv_image_fst)
  from visit show "mset keyIDs = mset (map fst (keys e))"
    by (metis mset_map)
  from visit show "ListKeys e r' keyIDs"
    unfolding ListKeys_iff_visit by blast
qed

theorem ListKeys_ignores_role_witness:
  "ListKeys demo_store ''root'' [''02'', ''01''] \<and>
   set [''02'', ''01''] = dom (map_of (keys demo_store)) \<and>
   mset [''02'', ''01''] = mset (map fst (keys demo_store)) \<and>
   ListKeys demo_store ''targets'' [''02'', ''01'']"
    (is "?hyp \<and> ?concl")
proof -
  have "range_visits (keys demo_store) (rev (keys demo_store))"
    by (simp add: range_visits_iff)
  then have h: "?hyp"
    by (rule ListKeys_returns) (simp add: demo_store_def)
  have "?hyp \<longrightarrow> ?concl"
    using ListKeys_ignores_role [of demo_store "''root''" "[''02'', ''01'']" "''targets''"]
    by (rule conjunct2)
  then have "?concl" using h by (rule mp)
  with h show ?thesis by (rule conjI)
qed

text \<open>
  C8. \<open>RemoveKey\<close> returns the \<open>nil\<close> error; afterwards the identifier is absent and
  every other entry is as before; on an absent identifier the store is unchanged; a
  second call with the same identifier returns what the first returned, error and
  store.
\<close>

theorem RemoveKey_idempotent:
  "fst (RemoveKey e keyID) = None \<and>
   map_of (keys (snd (RemoveKey e keyID))) = (map_of (keys e))(keyID := None) \<and>
   (keyID \<notin> dom (map_of (keys e)) \<longrightarrow> snd (RemoveKey e keyID) = e) \<and>
   RemoveKey (snd (RemoveKey e keyID)) keyID = RemoveKey e keyID"
  by (simp add: RemoveKey_def delete_conv' delete_idem dom_map_of_conv_image_fst)

theorem RemoveKey_idempotent_witness:
  "''09'' \<notin> dom (map_of (keys demo_store)) \<and> snd (RemoveKey demo_store ''09'') = demo_store"
proof -
  have h: "''09'' \<notin> dom (map_of (keys demo_store))" by (simp add: demo_store_def)
  have "''09'' \<notin> dom (map_of (keys demo_store)) \<longrightarrow> snd (RemoveKey demo_store ''09'') = demo_store"
    using RemoveKey_idempotent [of demo_store "''09''"] by (elim conjE)
  then have "snd (RemoveKey demo_store ''09'') = demo_store" using h by (rule mp)
  with h show ?thesis by (rule conjI)
qed

text \<open>
  C1. The claim: with a requested identifier that the registry does not hold, \<open>Sign\<close>
  returns a \<open>KeyNotFound\<close> error naming it. \<open>Sign\<close> has no such test: the lookup
  yields the zero entry, and the method call on its \<open>nil\<close> key panics. Evaluated on the
  new store, for any requested identifier.
\<close>

theorem Sign_absent_key_panics:
  "Sign D NewEd25519 (keyID # rest) toSign = Inl NilDereference"
  by (simp add: Sign_def NewEd25519_def index_def zero_edCryptoKey_def)

text \<open>
  C2. The claim: \<open>GetKey\<close> fails with \<open>KeyNotFound\<close> on an absent identifier. \<open>GetKey\<close>
  has no such test and no error result: it hands the \<open>nil\<close> key of the zero entry to
  \<open>data.PublicKeyFromPrivate\<close> and returns what that call yields. Evaluated on the new
  store, for any identifier.
\<close>

theorem GetKey_absent_key_unchecked:
  "GetKey D NewEd25519 keyID = PublicKeyFromPrivate D None"
  by (simp add: GetKey_def NewEd25519_def index_def zero_edCryptoKey_def)

text \<open>
  C3. The claim: \<open>GetPrivateKey\<close> returns the key with the role recorded for it, and
  fails with \<open>KeyNotFound\<close> on an absent identifier. After \<open>addKey ''root'' key\<close> on the
  new store, \<open>GetPrivateKey\<close> returns the key with the empty role; on the new store it
  returns the \<open>nil\<close> key, the empty role and the \<open>nil\<close> error.
\<close>

theorem GetPrivateKey_empty_role_no_error:
  "(case addKey D NewEd25519 ''root'' (Some key) of
      Inl p \<Rightarrow> False
    | Inr e \<Rightarrow> GetPrivateKey e (ID D key) = (Some key, [], None)) \<and>
   GetPrivateKey NewEd25519 keyID = (None, [], None)"
  by (simp add: addKey_def NewEd25519_def GetPrivateKey_def index_def zero_edCryptoKey_def)

text \<open>
  C7. In a store that satisfies the registry invariant, \<open>PublicKeys\<close> returns the \<open>nil\<close>
  error and a map whose domain is the requested identifiers that the registry holds;
  each of them is mapped to the public key of its entry, and an absent identifier is
  left out.
\<close>

theorem PublicKeys_best_effort:
  assumes "registry_inv D e"
  shows "\<exists>k. PublicKeys D e keyIDs = Inr (k, None) \<and>
           dom (map_of k) = set keyIDs \<inter> dom (map_of (keys e)) \<and>
           map_of k = stored_public_key D e |` set keyIDs \<and>
           distinct (map fst k)"
proof -
  from assms have inv: "list_all (self_consistent D) (keys e)" by (simp add: registry_inv_def)
  from PublicKeys_loop_result [OF inv, of keyIDs "[]"]
  obtain k where k: "PublicKeys_loop D e keyIDs [] = Inr k"
      "map_of k = stored_public_key D e |` set keyIDs" "distinct (map fst k)"
    by auto
  have "dom (map_of k) = set keyIDs \<inter> dom (map_of (keys e))"
    unfolding k(2) using dom_stored_public_key [OF inv] by auto
  with k show ?thesis by (simp add: PublicKeys_def)
qed

theorem PublicKeys_best_effort_witness:
  "registry_inv demo demo_store \<and>
   (\<exists>k. PublicKeys demo demo_store [''01'', ''09''] = Inr (k, None) \<and>
      dom (map_of k) = set [''01'', ''09''] \<inter> dom (map_of (keys demo_store)) \<and>
      map_of k = stored_public_key demo demo_store |` set [''01'', ''09''] \<and>
      distinct (map fst k))"
    (is "_ \<and> ?concl")
proof -
  have h: "registry_inv demo demo_store"
    by (simp add: registry_inv_def self_consistent_def demo_store_def demo_def hex_def
        hex_digit_def)
  have "?concl" by (rule PublicKeys_best_effort [OF h])
  with h show ?thesis by (rule conjI)
qed

text \<open>
  C9. In a store that satisfies the registry invariant, \<open>Sign\<close> on identifiers that the
  registry all holds returns the \<open>nil\<close> error and one signature for each requested
  identifier, in the order of the request, each with the method
  \<open>data.EDDSASignature\<close>.
\<close>

theorem Sign_in_request_order:
  assumes "registry_inv D e" and "set keyIDs \<subseteq> dom (map_of (keys e))"
  shows "\<exists>sigs. Sign D e keyIDs toSign = Inr (sigs, None) \<and>
           length sigs = length keyIDs \<and> map KeyID sigs = keyIDs \<and>
           (\<forall>s\<in>set sigs. Method s = EDDSASignature D)"
proof -
  from assms(1) have "list_all (self_consistent D) (keys e)" by (simp add: registry_inv_def)
  from Sign_loop_present [OF this assms(2), of toSign "[]"]
  obtain sigs where sigs: "Sign_loop D e toSign keyIDs [] = Inr sigs" "map KeyID sigs = keyIDs"
      "\<forall>s\<in>set sigs. Method s = EDDSASignature D"
    by auto
  from sigs(2) have "length sigs = length keyIDs" by (metis length_map)
  with sigs show ?thesis by (simp add: Sign_def)
qed

theorem Sign_in_request_order_witness:
  "registry_inv demo demo_store \<and>
   set [''02'', ''01''] \<subseteq> dom (map_of (keys demo_store)) \<and>
   (\<exists>sigs. Sign demo demo_store [''02'', ''01''] [1, 2, 3] = Inr (sigs, None) \<and>
      length sigs = length [''02'', ''01''] \<and> map KeyID sigs = [''02'', ''01''] \<and>
      (\<forall>s\<in>set sigs. Method s = EDDSASignature demo))"
    (is "_ \<and> _ \<and> ?concl")
proof -
  have h1: "registry_inv demo demo_store"
    by (simp add: registry_inv_def self_consistent_def demo_store_def demo_def hex_def
        hex_digit_def)
  have h2: "set [''02'', ''01''] \<subseteq> dom (map_of (keys demo_store))"
    by (simp add: demo_store_def)
  have "?concl" by (rule Sign_in_request_order [OF h1 h2])
  with h1 h2 show ?thesis by (intro conjI)
qed

text \<open>
  C10. When the identifier of the key given to \<open>addKey\<close> is already in the registry,
  \<open>addKey\<close> returns without panic, the entry under that identifier becomes the new role
  with the new key, every other entry is as before, and the registry has as many
  entries as before, under the same identifiers.
\<close>

theorem addKey_overwrites:
  assumes "map_of (keys e) (ID D key) = Some old"
  shows "\<exists>e'. addKey D e r (Some key) = Inr e' \<and>
           length (keys e') = length (keys e) \<and>
           map fst (keys e') = map fst (keys e) \<and>
           map_of (keys e') = (map_of (keys e))(ID D key \<mapsto> \<lparr>role = r, privKey = Some key\<rparr>)"
proof -
  let ?new = "AList.update (ID D key) \<lparr>role = r, privKey = Some key\<rparr> (keys e)"
  from assms have "ID D key \<in> set (map fst (keys e))"
    by (metis map_of_SomeD image_eqI fst_conv set_map)
  then have "map fst ?new = map fst (keys e)"
    by (simp add: update_keys)
  moreover from this have "length ?new = length (keys e)"
    by (metis length_map)
  ultimately show ?thesis by (simp add: addKey_def update_conv')
qed

theorem addKey_overwrites_witness:
  "map_of (keys demo_store) (ID demo ([1], [9]))
     = Some \<lparr>role = ''root'', privKey = Some ([1], [5, 6])\<rparr> \<and>
   (\<exists>e'. addKey demo demo_store ''snapshot'' (Some ([1], [9])) = Inr e' \<and>
      length (keys e') = length (keys demo_store) \<and>
      map fst (keys e') = map fst (keys demo_store) \<and>
      map_of (keys e')
        = (map_of (keys demo_store))
            (ID demo ([1], [9]) \<mapsto> \<lparr>role = ''snapshot'', privKey = Some ([1], [9])\<rparr>))"
    (is "?hyp \<and> ?concl")
proof -
  have h: "?hyp" by (simp add: demo_store_def demo_def hex_def hex_digit_def)
  have "?concl" by (rule addKey_overwrites [OF h])
  with h show ?thesis by (rule conjI)
qed

end
